theory Spec2Isabelle
  imports Main
begin

section \<open>JavaScript values seen by the sorted array set\<close>

text \<open>
  The store is generic in its element type \<open>T\<close>. At run time the code distinguishes
  three kinds of value: \<open>null\<close> and \<open>undefined\<close>, which \<open>add\<close> rejects with
  \<open>element == null\<close>; the number \<open>NaN\<close>, the one value on which the two equalities
  of the code differ (the \<open>Set\<close> compares with SameValueZero, under which \<open>NaN\<close> equals
  itself, the filter of \<open>remove\<close> compares with \<open>!==\<close>, under which it does not);
  and every other value, on which both equalities are the identity of the value.
  The array held by the subject never holds \<open>null\<close> or \<open>undefined\<close>, since \<open>add\<close> is
  the only operation that puts a value into it; its entries are of type \<open>'a elem\<close>,
  the arguments of the operations of type \<open>'a arg\<close>.
\<close>

datatype 'a elem = NaN | Val 'a

datatype 'a arg = Null | Undefined | Elem "'a elem"

text \<open>\<open>x !== y\<close>: strict inequality. Equal values are strictly unequal only for \<open>NaN\<close>.\<close>

definition strict_neq :: "'a arg \<Rightarrow> 'a arg \<Rightarrow> bool" where
  "strict_neq x y = (x \<noteq> y \<or> x = Elem NaN)"

section \<open>Configuration\<close>

text \<open>
  \<open>SortedArraySetOptions\<close>. The comparator returns a number of which
  \<open>Array.prototype.sort\<close> reads the sign only (a result that is not a number counts as
  0); \<open>maxSize\<close> is optional (\<open>None\<close> is \<open>undefined\<close>) and, when given, an integer of
  either sign: the code compares it with the length and checks nothing else.
\<close>

record 'a options =
  sortFn :: "'a elem \<Rightarrow> 'a elem \<Rightarrow> int"
  maxSize :: "int option"

section \<open>Array operations\<close>

text \<open>
  \<open>Array.prototype.sort(sortFn)\<close> is a stable sort. For a consistent comparator (one
  whose sign for \<open>(b, a)\<close> is the opposite of its sign for \<open>(a, b)\<close>, and that is
  transitive) the language fixes the result: the entries in ascending order, those that
  compare equal in the order they had. For any other comparator the result is left to
  the engine, so nothing about the order of a sorted array is claimed below without the
  hypothesis that the comparator is consistent (\<open>total_preorder\<close>).

  The sort is modelled as an insertion sort that reads the comparator as the engine
  does: an entry that stands later moves in front of an earlier one only when the
  comparator, called with the later entry first, is negative. \<open>insert_sorted f x ys\<close>
  puts \<open>x\<close>, which stood before the entries of the sorted \<open>ys\<close>, in its place: each entry of
  \<open>ys\<close> that is less than \<open>x\<close> moves in front of it.
\<close>

fun insert_sorted :: "('a \<Rightarrow> 'a \<Rightarrow> int) \<Rightarrow> 'a \<Rightarrow> 'a list \<Rightarrow> 'a list" where
  "insert_sorted f x [] = [x]"
| "insert_sorted f x (y # ys) =
     (if f y x < 0 then y # insert_sorted f x ys else x # y # ys)"

fun array_sort :: "('a \<Rightarrow> 'a \<Rightarrow> int) \<Rightarrow> 'a list \<Rightarrow> 'a list" where
  "array_sort f [] = []"
| "array_sort f (x # xs) = insert_sorted f x (array_sort f xs)"

text \<open>\<open>Array.prototype.pop()\<close>: the removed last entry (\<open>undefined\<close>, here \<open>None\<close>, on
  an empty array) and the array that remains.\<close>

definition array_pop :: "'a list \<Rightarrow> 'a option \<times> 'a list" where
  "array_pop xs = (if xs = [] then (None, []) else (Some (last xs), butlast xs))"

text \<open>
  \<open>Array.prototype.slice(0, n)\<close>: a negative end counts from the end of the array, and
  the end is clamped to the bounds of the array.
\<close>

definition slice0 :: "int \<Rightarrow> 'a list \<Rightarrow> 'a list" where
  "slice0 n xs =
     (let len = int (length xs);
          final = (if n < 0 then max (len + n) 0 else min n len)
      in take (nat final) xs)"

section \<open>The behaviour subject\<close>

text \<open>
  A \<open>BehaviorSubject\<close> holds a current value and hands every value it holds to its
  subscribers. \<open>snapshots\<close> lists the values the subject has held, oldest first: the seed
  it was created with, then the argument of each \<open>next\<close>.
\<close>

record 'v subject =
  current :: 'v
  snapshots :: "'v list"

definition new_subject :: "'v \<Rightarrow> 'v subject" where
  "new_subject v = \<lparr>current = v, snapshots = [v]\<rparr>"

definition getValue :: "'v subject \<Rightarrow> 'v" where
  "getValue sub = current sub"

definition subject_next :: "'v \<Rightarrow> 'v subject \<Rightarrow> 'v subject" where
  "subject_next v sub = \<lparr>current = v, snapshots = snapshots sub @ [v]\<rparr>"

text \<open>
  A subscriber that arrives after \<open>k\<close> calls of \<open>next\<close> receives the value current at
  that moment and every later one.
\<close>

definition observe :: "nat \<Rightarrow> 'v subject \<Rightarrow> 'v list" where
  "observe k sub = drop k (snapshots sub)"

section \<open>The store\<close>

text \<open>
  The closure of \<open>createSortedArraySet\<close>: the set \<open>uniqueElements\<close>, the subject
  \<open>data$\<close> and, for the warning of \<open>add\<close>, the lines written by \<open>console.warn\<close>.
\<close>

record 'a store =
  uniqueElements :: "'a elem set"
  data :: "'a elem list subject"
  console :: "string list"

definition warning :: string where
  "warning = ''Cannot add null or undefined to SortedArraySet''"

definition warn :: "'a store \<Rightarrow> 'a store" where
  "warn s = s\<lparr>console := console s @ [warning]\<rparr>"

text \<open>The part of \<open>add\<close> under \<open>if (maxSize !== undefined && newData.length > maxSize)\<close>:
  the array and the set after it.\<close>

definition enforce_maxSize ::
  "int option \<Rightarrow> 'a elem list \<Rightarrow> 'a elem set \<Rightarrow> 'a elem list \<times> 'a elem set" where
  "enforce_maxSize mx newData u =
     (case mx of
        None \<Rightarrow> (newData, u)
      | Some m \<Rightarrow>
          if int (length newData) > m then
            (case array_pop newData of
               (None, rest) \<Rightarrow> (rest, u)
             | (Some lastElement, rest) \<Rightarrow> (rest, u - {lastElement}))
          else (newData, u))"

fun add :: "'a options \<Rightarrow> 'a arg \<Rightarrow> 'a store \<Rightarrow> 'a store" where
  "add opts Null s = warn s"
| "add opts Undefined s = warn s"
| "add opts (Elem element) s =
     (if element \<notin> uniqueElements s then
        let u = insert element (uniqueElements s);
            currentData = getValue (data s);
            newData = array_sort (sortFn opts) (currentData @ [element]);
            (newData', u') = enforce_maxSize (maxSize opts) newData u
        in s\<lparr>uniqueElements := u', data := subject_next newData' (data s)\<rparr>
      else s)"

text \<open>\<open>uniqueElements.delete(element)\<close>: \<open>null\<close> and \<open>undefined\<close> are never in the set.\<close>

fun set_delete :: "'a arg \<Rightarrow> 'a elem set \<Rightarrow> 'a elem set" where
  "set_delete (Elem e) u = u - {e}"
| "set_delete _ u = u"

definition remove :: "'a options \<Rightarrow> 'a arg \<Rightarrow> 'a store \<Rightarrow> 'a store" where
  "remove opts element s =
     (let u = set_delete element (uniqueElements s);
          currentData = getValue (data s);
          newData = filter (\<lambda>e. strict_neq (Elem e) element) currentData;
          newData' = array_sort (sortFn opts) newData
      in s\<lparr>uniqueElements := u, data := subject_next newData' (data s)\<rparr>)"

fun has :: "'a arg \<Rightarrow> 'a store \<Rightarrow> bool" where
  "has (Elem e) s = (e \<in> uniqueElements s)"
| "has _ s = False"

text \<open>
  \<open>getTopN(n)\<close> pipes the subject through \<open>map(data => data.slice(0, n))\<close>: what a
  subscriber of the derived stream receives, having arrived after \<open>k\<close> calls of \<open>next\<close>.
\<close>

definition getTopN :: "int \<Rightarrow> nat \<Rightarrow> 'a store \<Rightarrow> 'a elem list list" where
  "getTopN n k s = map (slice0 n) (observe k (data s))"

definition clear :: "'a store \<Rightarrow> 'a store" where
  "clear s = s\<lparr>uniqueElements := {}, data := subject_next [] (data s)\<rparr>"

text \<open>The store as \<open>createSortedArraySet\<close> creates it.\<close>

definition createSortedArraySet :: "'a store" where
  "createSortedArraySet = \<lparr>uniqueElements = {}, data = new_subject [], console = []\<rparr>"

text \<open>
  The object that \<open>createSortedArraySet\<close> returns is
  \<open>Object.assign(observable$, {add, remove, has, getTopN})\<close>: the observable with these
  four functions as properties (an \<open>Observable\<close> has no member named \<open>clear\<close> of its
  own). A call names a property of that object; calling a property the object does not
  have throws a \<open>TypeError\<close>.
\<close>

datatype 'a call =
  CallAdd "'a arg" | CallRemove "'a arg" | CallHas "'a arg" | CallGetTopN int | CallClear

fun property :: "'a call \<Rightarrow> string" where
  "property (CallAdd _) = ''add''"
| "property (CallRemove _) = ''remove''"
| "property (CallHas _) = ''has''"
| "property (CallGetTopN _) = ''getTopN''"
| "property CallClear = ''clear''"

definition handle_properties :: "string list" where
  "handle_properties = [''add'', ''remove'', ''has'', ''getTopN'']"

datatype error = TypeError

fun body :: "'a options \<Rightarrow> 'a call \<Rightarrow> 'a store \<Rightarrow> 'a store" where
  "body opts (CallAdd e) s = add opts e s"
| "body opts (CallRemove e) s = remove opts e s"
| "body opts (CallHas e) s = s"
| "body opts (CallGetTopN n) s = s"
| "body opts CallClear s = clear s"

definition invoke :: "'a options \<Rightarrow> 'a call \<Rightarrow> 'a store \<Rightarrow> error + 'a store" where
  "invoke opts c s =
     (if property c \<in> set handle_properties then Inr (body opts c s) else Inl TypeError)"

section \<open>Sequences of operations\<close>

datatype 'a op = Add "'a arg" | Remove "'a arg" | Clear

fun step :: "'a options \<Rightarrow> 'a op \<Rightarrow> 'a store \<Rightarrow> 'a store" where
  "step opts (Add e) s = add opts e s"
| "step opts (Remove e) s = remove opts e s"
| "step opts Clear s = clear s"

fun run :: "'a options \<Rightarrow> 'a op list \<Rightarrow> 'a store \<Rightarrow> 'a store" where
  "run opts [] s = s"
| "run opts (c # cs) s = run opts cs (step opts c s)"

definition add_all :: "'a options \<Rightarrow> 'a arg list \<Rightarrow> 'a store \<Rightarrow> 'a store" where
  "add_all opts es s = run opts (map Add es) s"

section \<open>Orders\<close>

text \<open>
  The comparator the specification asks for: a total order function with a negative,
  zero or positive result. \<open>f x y \<le> 0\<close> reads "\<open>x\<close> is not after \<open>y\<close>". The comparator is
  consistent, a total preorder, when the sign of \<open>f y x\<close> is the opposite of the sign of
  \<open>f x y\<close> (so any two values are comparable, and a value compares equal to itself) and
  "not after" is transitive; values that are different may compare equal. A sequence is
  ascending when no entry is after a later one.
\<close>

definition total_preorder :: "('a \<Rightarrow> 'a \<Rightarrow> int) \<Rightarrow> bool" where
  "total_preorder f =
     ((\<forall>x y. (f x y < 0) = (0 < f y x))
      \<and> (\<forall>x y. f x y \<le> 0 \<or> f y x \<le> 0)
      \<and> (\<forall>x y z. f x y \<le> 0 \<longrightarrow> f y z \<le> 0 \<longrightarrow> f x z \<le> 0))"

definition ascending :: "('a \<Rightarrow> 'a \<Rightarrow> int) \<Rightarrow> 'a list \<Rightarrow> bool" where
  "ascending f xs = sorted_wrt (\<lambda>x y. f x y \<le> 0) xs"

text \<open>The elements among the arguments of a sequence of \<open>add\<close> calls, and the distinct
  ones among them in the order in which they were first added.\<close>

fun elems_of :: "'a arg list \<Rightarrow> 'a elem list" where
  "elems_of [] = []"
| "elems_of (Elem e # es) = e # elems_of es"
| "elems_of (_ # es) = elems_of es"

definition distinct_added :: "'a arg list \<Rightarrow> 'a elem list" where
  "distinct_added es = rev (remdups (rev (elems_of es)))"

text \<open>The comparator \<open>(a, b) => a - b\<close> of the documentation on numbers that are integers;
  it puts \<open>NaN\<close> first, so that it is a total preorder on every element.\<close>

fun numeric :: "int elem \<Rightarrow> int elem \<Rightarrow> int" where
  "numeric (Val a) (Val b) = a - b"
| "numeric NaN (Val b) = -1"
| "numeric (Val a) NaN = 1"
| "numeric NaN NaN = 0"

text \<open>The comparator \<open>(a, b) => a > b ? 1 : 0\<close>, which is not consistent: it is never
  negative.\<close>

fun after_only :: "int elem \<Rightarrow> int elem \<Rightarrow> int" where
  "after_only (Val a) (Val b) = (if a > b then 1 else 0)"
| "after_only _ _ = 0"

section \<open>The store with its arrays on a heap\<close>

text \<open>
  A snapshot handed to a subscriber is a reference to an array, and \<open>sort\<close> and \<open>pop\<close>
  change an array in place. To follow which array each statement writes, the arrays live
  on a heap, a list of arrays in which a reference is a position, and the subject holds
  references. \<open>[...currentData, element]\<close>, \<open>filter\<close> and the literal \<open>[]\<close> allocate.
\<close>

type_synonym ref = nat

record 'a hstore =
  heap :: "'a elem list list"
  h_uniqueElements :: "'a elem set"
  h_data :: "ref subject"
  h_console :: "string list"

definition alloc :: "'a elem list \<Rightarrow> 'a elem list list \<Rightarrow> ref \<times> 'a elem list list" where
  "alloc arr h = (length h, h @ [arr])"

definition sort_in_place ::
  "('a elem \<Rightarrow> 'a elem \<Rightarrow> int) \<Rightarrow> ref \<Rightarrow> 'a elem list list \<Rightarrow> 'a elem list list" where
  "sort_in_place f r h = h[r := array_sort f (h ! r)]"

definition pop_in_place ::
  "ref \<Rightarrow> 'a elem list list \<Rightarrow> 'a elem option \<times> 'a elem list list" where
  "pop_in_place r h = (case array_pop (h ! r) of (x, rest) \<Rightarrow> (x, h[r := rest]))"

definition h_enforce_maxSize ::
  "int option \<Rightarrow> ref \<Rightarrow> 'a elem list list \<Rightarrow> 'a elem set
     \<Rightarrow> 'a elem list list \<times> 'a elem set" where
  "h_enforce_maxSize mx newData h u =
     (case mx of
        None \<Rightarrow> (h, u)
      | Some m \<Rightarrow>
          if int (length (h ! newData)) > m then
            (case pop_in_place newData h of
               (None, h') \<Rightarrow> (h', u)
             | (Some lastElement, h') \<Rightarrow> (h', u - {lastElement}))
          else (h, u))"

fun h_add :: "'a options \<Rightarrow> 'a arg \<Rightarrow> 'a hstore \<Rightarrow> 'a hstore" where
  "h_add opts Null s = s\<lparr>h_console := h_console s @ [warning]\<rparr>"
| "h_add opts Undefined s = s\<lparr>h_console := h_console s @ [warning]\<rparr>"
| "h_add opts (Elem element) s =
     (if element \<notin> h_uniqueElements s then
        let u = insert element (h_uniqueElements s);
            currentData = getValue (h_data s);
            (newData, h1) = alloc (heap s ! currentData @ [element]) (heap s);
            h2 = sort_in_place (sortFn opts) newData h1;
            (h3, u') = h_enforce_maxSize (maxSize opts) newData h2 u
        in s\<lparr>heap := h3, h_uniqueElements := u', h_data := subject_next newData (h_data s)\<rparr>
      else s)"

definition h_remove :: "'a options \<Rightarrow> 'a arg \<Rightarrow> 'a hstore \<Rightarrow> 'a hstore" where
  "h_remove opts element s =
     (let u = set_delete element (h_uniqueElements s);
          currentData = getValue (h_data s);
          (newData, h1) =
             alloc (filter (\<lambda>e. strict_neq (Elem e) element) (heap s ! currentData)) (heap s);
          h2 = sort_in_place (sortFn opts) newData h1
      in s\<lparr>heap := h2, h_uniqueElements := u, h_data := subject_next newData (h_data s)\<rparr>)"

definition h_clear :: "'a hstore \<Rightarrow> 'a hstore" where
  "h_clear s =
     (let (empty_array, h1) = alloc [] (heap s)
      in s\<lparr>heap := h1, h_uniqueElements := {}, h_data := subject_next empty_array (h_data s)\<rparr>)"

definition h_createSortedArraySet :: "'a hstore" where
  "h_createSortedArraySet =
     (let (seed, h) = alloc [] []
      in \<lparr>heap = h, h_uniqueElements = {}, h_data = new_subject seed, h_console = []\<rparr>)"

fun h_step :: "'a options \<Rightarrow> 'a op \<Rightarrow> 'a hstore \<Rightarrow> 'a hstore" where
  "h_step opts (Add e) s = h_add opts e s"
| "h_step opts (Remove e) s = h_remove opts e s"
| "h_step opts Clear s = h_clear s"

fun h_run :: "'a options \<Rightarrow> 'a op list \<Rightarrow> 'a hstore \<Rightarrow> 'a hstore" where
  "h_run opts [] s = s"
| "h_run opts (c # cs) s = h_run opts cs (h_step opts c s)"

text \<open>The store a heap store stands for: each reference read through the heap.\<close>

definition contents :: "'a hstore \<Rightarrow> 'a store" where
  "contents s =
     \<lparr>uniqueElements = h_uniqueElements s,
      data = \<lparr>current = heap s ! current (h_data s),
              snapshots = map (\<lambda>r. heap s ! r) (snapshots (h_data s))\<rparr>,
      console = h_console s\<rparr>"

definition allocated :: "'a hstore \<Rightarrow> bool" where
  "allocated s =
     (current (h_data s) < length (heap s)
      \<and> (\<forall>r \<in> set (snapshots (h_data s)). r < length (heap s)))"

section \<open>Auxiliary notions\<close>

text \<open>Where a stable sort puts an entry appended to an ascending array: in front of the
  first entry that it is less than, behind every entry before that one.\<close>

fun insert_after :: "('a \<Rightarrow> 'a \<Rightarrow> int) \<Rightarrow> 'a \<Rightarrow> 'a list \<Rightarrow> 'a list" where
  "insert_after f e [] = [e]"
| "insert_after f e (y # ys) =
     (if f e y < 0 then e # y # ys else y # insert_after f e ys)"

text \<open>The set and the current sequence hold the same elements, each once.\<close>

definition in_sync :: "'a store \<Rightarrow> bool" where
  "in_sync s = (uniqueElements s = set (current (data s)) \<and> distinct (current (data s)))"

text \<open>Every sequence the subject has held, and the one it holds, is ascending.\<close>

definition ascending_history :: "('a elem \<Rightarrow> 'a elem \<Rightarrow> int) \<Rightarrow> 'a store \<Rightarrow> bool" where
  "ascending_history f s =
     (ascending f (current (data s)) \<and> (\<forall>snap \<in> set (snapshots (data s)). ascending f snap))"

text \<open>A store of the documentation's example, after \<open>add(3)\<close>, \<open>add(1)\<close>, \<open>add(2)\<close> have
  filled it to its \<open>maxSize\<close> of 3 (earlier snapshots left out).\<close>

definition full3 :: "int store" where
  "full3 = \<lparr>uniqueElements = {Val 1, Val 2, Val 3},
            data = \<lparr>current = [Val 1, Val 2, Val 3], snapshots = [[], [Val 1, Val 2, Val 3]]\<rparr>,
            console = []\<rparr>"

section \<open>Sorting\<close>

lemma set_insert_sorted: "set (insert_sorted f x xs) = insert x (set xs)"
  by (induction xs) auto

lemma set_array_sort: "set (array_sort f xs) = set xs"
  by (induction xs) (auto simp: set_insert_sorted)

lemma length_insert_sorted: "length (insert_sorted f x xs) = Suc (length xs)"
  by (induction xs) auto

lemma length_array_sort: "length (array_sort f xs) = length xs"
  by (induction xs) (auto simp: length_insert_sorted)

lemma distinct_insert_sorted: "distinct (insert_sorted f x xs) = (x \<notin> set xs \<and> distinct xs)"
  by (induction xs) (auto simp: set_insert_sorted)

lemma distinct_array_sort: "distinct (array_sort f xs) = distinct xs"
  by (induction xs) (auto simp: distinct_insert_sorted set_array_sort)

lemma total_preorder_less:
  assumes "total_preorder f"
  shows "(f y x < 0) = (\<not> f x y \<le> 0)"
proof -
  have "(f y x < 0) = (0 < f x y)" using assms unfolding total_preorder_def by blast
  then show ?thesis by auto
qed

lemma ascending_insert_sorted:
  assumes "total_preorder f" "ascending f xs"
  shows "ascending f (insert_sorted f x xs)"
  using assms(2)
proof (induction xs)
  case Nil
  then show ?case by (simp add: ascending_def)
next
  case (Cons y ys)
  have tot: "\<And>a b. f a b \<le> 0 \<or> f b a \<le> 0" and tr: "\<And>a b c. f a b \<le> 0 \<Longrightarrow> f b c \<le> 0 \<Longrightarrow> f a c \<le> 0"
    using assms(1) unfolding total_preorder_def by blast+
  note lt = total_preorder_less [OF assms(1)]
  show ?case
  proof (cases "f x y \<le> 0")
    case True
    then show ?thesis using Cons.prems tr by (auto simp: ascending_def lt)
  next
    case False
    then have "f y x \<le> 0" using tot by blast
    then show ?thesis using False Cons by (auto simp: ascending_def set_insert_sorted lt)
  qed
qed

lemma ascending_array_sort: "total_preorder f \<Longrightarrow> ascending f (array_sort f xs)"
proof (induction xs)
  case Nil show ?case by (simp add: ascending_def)
next
  case (Cons x xs) then show ?case by (simp add: ascending_insert_sorted)
qed

lemma array_sort_ascending:
  assumes tp: "total_preorder f"
  shows "ascending f xs \<Longrightarrow> array_sort f xs = xs"
proof (induction xs)
  case Nil show ?case by simp
next
  case (Cons x xs)
  note lt = total_preorder_less [OF tp]
  from Cons have "array_sort f xs = xs" by (simp add: ascending_def)
  moreover have "insert_sorted f x xs = x # xs"
    using Cons.prems by (cases xs) (auto simp: ascending_def lt)
  ultimately show ?case by simp
qed

lemma insert_sorted_insert_after:
  assumes "total_preorder f"
  shows "insert_sorted f x (insert_after f e S) = insert_after f e (insert_sorted f x S)"
proof -
  have tot: "\<And>a b. f a b \<le> 0 \<or> f b a \<le> 0" and tr: "\<And>a b c. f a b \<le> 0 \<Longrightarrow> f b c \<le> 0 \<Longrightarrow> f a c \<le> 0"
    using assms(1) unfolding total_preorder_def by blast+
  note lt = total_preorder_less [OF assms(1)]
  show ?thesis
  proof (induction S)
    case Nil show ?case by (simp add: lt)
  next
    case (Cons y ys)
    show ?case
    proof (cases "f y e \<le> 0")
      case ye: True
      show ?thesis
      proof (cases "f x y \<le> 0")
        case True
        then have "f x e \<le> 0" using ye tr by blast
        then show ?thesis using ye True by (simp add: lt)
      next
        case False then show ?thesis using ye Cons by (simp add: lt)
      qed
    next
      case ye: False
      then have ey: "f e y \<le> 0" using tot by blast
      show ?thesis
      proof (cases "f x y \<le> 0")
        case True then show ?thesis using ye by (simp add: lt)
      next
        case False
        then have "\<not> f x e \<le> 0" using ey tr by blast
        then show ?thesis using ye False by (simp add: lt)
      qed
    qed
  qed
qed

lemma array_sort_snoc:
  "total_preorder f \<Longrightarrow> array_sort f (xs @ [e]) = insert_after f e (array_sort f xs)"
  by (induction xs) (simp_all add: insert_sorted_insert_after)

lemma take_insert_after:
  "take m (insert_after f e S) = take m (insert_after f e (take m S))"
proof (induction S arbitrary: m)
  case Nil show ?case by simp
next
  case (Cons y ys)
  show ?case
  proof (cases m)
    case 0 then show ?thesis by simp
  next
    case (Suc k)
    show ?thesis
    proof (cases "f e y < 0")
      case False then show ?thesis using Suc Cons[of k] by simp
    next
      case True
      have "take k (y # take k ys) = take k (y # ys)" by (cases k) (simp_all add: min_def)
      then show ?thesis using Suc True by simp
    qed
  qed
qed

lemma length_insert_after: "length (insert_after f e S) = Suc (length S)"
  by (induction S) auto

lemma set_insert_after: "set (insert_after f e S) = insert e (set S)"
  by (induction S) auto

section \<open>The set and the sequence stay in step\<close>

lemma enforce_maxSize_None [simp]: "enforce_maxSize None xs u = (xs, u)"
  by (simp add: enforce_maxSize_def)

lemma enforce_maxSize_keep: "\<not> int (length xs) > m \<Longrightarrow> enforce_maxSize (Some m) xs u = (xs, u)"
  by (simp add: enforce_maxSize_def)

lemma enforce_maxSize_evict:
  "int (length xs) > m \<Longrightarrow> xs \<noteq> [] \<Longrightarrow>
   enforce_maxSize (Some m) xs u = (butlast xs, u - {last xs})"
  by (simp add: enforce_maxSize_def array_pop_def)

lemma array_sort_Nil_iff [simp]: "array_sort f xs = [] \<longleftrightarrow> xs = []"
  using length_array_sort[of f xs] by (metis length_0_conv)

lemma add_new:
  "e \<notin> uniqueElements s \<Longrightarrow>
   add opts (Elem e) s =
     s\<lparr>uniqueElements := snd (enforce_maxSize (maxSize opts)
          (array_sort (sortFn opts) (current (data s) @ [e])) (insert e (uniqueElements s))),
       data := subject_next (fst (enforce_maxSize (maxSize opts)
          (array_sort (sortFn opts) (current (data s) @ [e])) (insert e (uniqueElements s)))) (data s)\<rparr>"
  by (simp add: getValue_def split: prod.splits)

lemma add_present: "e \<in> uniqueElements s \<Longrightarrow> add opts (Elem e) s = s"
  by simp

lemma set_butlast_distinct:
  "distinct xs \<Longrightarrow> xs \<noteq> [] \<Longrightarrow> set (butlast xs) = set xs - {last xs}"
proof -
  assume d: "distinct xs" and n: "xs \<noteq> []"
  have eq: "xs = butlast xs @ [last xs]" using n by simp
  have "distinct (butlast xs @ [last xs])" using d eq by simp
  then have "last xs \<notin> set (butlast xs)" by simp
  moreover have "set xs = set (butlast xs) \<union> {last xs}" using eq by (metis set_append list.set(1) list.set(2))
  ultimately show ?thesis by auto
qed

lemma enforce_maxSize_in_sync:
  assumes "u = set xs" "distinct xs" "xs \<noteq> []"
  shows "snd (enforce_maxSize mx xs u) = set (fst (enforce_maxSize mx xs u))
         \<and> distinct (fst (enforce_maxSize mx xs u))"
proof (cases mx)
  case None then show ?thesis using assms by simp
next
  case (Some m)
  show ?thesis
  proof (cases "int (length xs) > m")
    case True
    then show ?thesis using assms Some
      by (simp add: enforce_maxSize_evict set_butlast_distinct distinct_butlast)
  next
    case False then show ?thesis using assms Some by (simp add: enforce_maxSize_keep)
  qed
qed

lemma in_sync_add: "in_sync s \<Longrightarrow> in_sync (add opts e s)"
proof (cases e)
  case Null then show "in_sync s \<Longrightarrow> ?thesis" by (simp add: in_sync_def warn_def)
next
  case Undefined then show "in_sync s \<Longrightarrow> ?thesis" by (simp add: in_sync_def warn_def)
next
  case (Elem x)
  assume inv: "in_sync s"
  show ?thesis
  proof (cases "x \<in> uniqueElements s")
    case True then show ?thesis using inv Elem by simp
  next
    case False
    let ?nd = "array_sort (sortFn opts) (current (data s) @ [x])"
    have "insert x (uniqueElements s) = set ?nd" using inv by (simp add: in_sync_def set_array_sort)
    moreover have "distinct ?nd" using inv False by (simp add: in_sync_def distinct_array_sort)
    moreover have "?nd \<noteq> []" by simp
    ultimately have "snd (enforce_maxSize (maxSize opts) ?nd (insert x (uniqueElements s)))
         = set (fst (enforce_maxSize (maxSize opts) ?nd (insert x (uniqueElements s))))
         \<and> distinct (fst (enforce_maxSize (maxSize opts) ?nd (insert x (uniqueElements s))))"
      by (rule enforce_maxSize_in_sync)
    then show ?thesis using Elem False
      by (simp add: add_new in_sync_def subject_next_def del: add.simps)
  qed
qed

lemma in_sync_clear: "in_sync (clear s)"
  by (simp add: in_sync_def clear_def subject_next_def)

lemma remove_eq:
  "remove opts e s =
     s\<lparr>uniqueElements := set_delete e (uniqueElements s),
       data := subject_next (array_sort (sortFn opts)
                 (filter (\<lambda>y. strict_neq (Elem y) e) (current (data s)))) (data s)\<rparr>"
  by (simp add: remove_def Let_def getValue_def)

lemma in_sync_remove:
  assumes "in_sync s" "e \<noteq> Elem NaN"
  shows "in_sync (remove opts e s)"
proof (cases e)
  case Null then show ?thesis using assms
    by (simp add: in_sync_def remove_eq subject_next_def strict_neq_def set_array_sort distinct_array_sort)
next
  case Undefined then show ?thesis using assms
    by (simp add: in_sync_def remove_eq subject_next_def strict_neq_def set_array_sort distinct_array_sort)
next
  case (Elem x)
  then have "x \<noteq> NaN" using assms by simp
  then have "filter (\<lambda>y. strict_neq (Elem y) e) (current (data s)) = filter (\<lambda>y. y \<noteq> x) (current (data s))"
    using Elem by (simp add: strict_neq_def)
  then show ?thesis using assms Elem
    by (auto simp: in_sync_def remove_eq subject_next_def set_array_sort distinct_array_sort)
qed

lemma in_sync_create: "in_sync createSortedArraySet"
  by (simp add: in_sync_def createSortedArraySet_def new_subject_def)

lemma run_append: "run opts (cs @ ds) s = run opts ds (run opts cs s)"
  by (induction cs arbitrary: s) auto

lemma add_all_snoc: "add_all opts (es @ [e]) s = add opts e (add_all opts es s)"
  by (simp add: add_all_def run_append)

lemma add_all_Nil [simp]: "add_all opts [] s = s"
  by (simp add: add_all_def)

lemma in_sync_add_all: "in_sync s \<Longrightarrow> in_sync (add_all opts es s)"
  by (induction es rule: rev_induct) (simp_all add: add_all_snoc in_sync_add)

lemma in_sync_run:
  "in_sync s \<Longrightarrow> Remove (Elem NaN) \<notin> set cs \<Longrightarrow> in_sync (run opts cs s)"
proof (induction cs arbitrary: s)
  case Nil then show ?case by simp
next
  case (Cons c cs)
  have "in_sync (step opts c s)"
  proof (cases c)
    case (Add e) then show ?thesis using Cons.prems by (simp add: in_sync_add)
  next
    case (Remove e) then show ?thesis using Cons.prems by (auto simp: in_sync_remove)
  next
    case Clear then show ?thesis by (simp add: in_sync_clear)
  qed
  then show ?case using Cons by simp
qed

section \<open>The bound\<close>

lemma elems_of_append: "elems_of (xs @ ys) = elems_of xs @ elems_of ys"
  by (induction xs rule: elems_of.induct) auto

lemma set_distinct_added [simp]: "set (distinct_added es) = set (elems_of es)"
  by (simp add: distinct_added_def)

lemma distinct_distinct_added [simp]: "distinct (distinct_added es)"
  by (simp add: distinct_added_def)

lemma distinct_added_snoc:
  "distinct_added (es @ [Elem x]) =
     (if x \<in> set (elems_of es) then distinct_added es else distinct_added es @ [x])"
  by (simp add: distinct_added_def elems_of_append)

lemma distinct_added_snoc_nullish:
  "distinct_added (es @ [Null]) = distinct_added es"
  "distinct_added (es @ [Undefined]) = distinct_added es"
  by (simp_all add: distinct_added_def elems_of_append)

lemma insert_after_last:
  "total_preorder f \<Longrightarrow> \<forall>y \<in> set ys. f y e \<le> 0 \<Longrightarrow> insert_after f e ys = ys @ [e]"
  by (induction ys) (auto simp: total_preorder_less)

lemma ascending_take: "ascending f S \<Longrightarrow> ascending f (take M S)"
  unfolding ascending_def by (rule sorted_wrt_take)

lemma ascending_take_drop:
  assumes "ascending f S" "a \<in> set (take M S)" "b \<in> set (drop M S)"
  shows "f a b \<le> 0"
proof -
  have "sorted_wrt (\<lambda>x y. f x y \<le> 0) (take M S @ drop M S)"
    using assms(1) by (simp add: ascending_def)
  then show ?thesis using assms(2,3) unfolding sorted_wrt_append by blast
qed

lemma current_add_new:
  "x \<notin> uniqueElements s \<Longrightarrow>
   current (data (add opts (Elem x) s)) =
     fst (enforce_maxSize (maxSize opts)
        (array_sort (sortFn opts) (current (data s) @ [x])) (insert x (uniqueElements s)))"
  by (simp add: add_new subject_next_def del: add.simps)

lemma add_step_smallest:
  assumes tp: "total_preorder (sortFn opts)"
    and mx: "maxSize opts = Some m" and m0: "0 \<le> m"
    and cur: "current (data s) = take (nat m) (array_sort (sortFn opts) D)"
    and sync: "uniqueElements s = set (current (data s))"
  shows "current (data (add opts (Elem x) s)) =
         take (nat m) (array_sort (sortFn opts) (if x \<in> set D then D else D @ [x]))"
proof (cases "x \<in> uniqueElements s")
  case True
  then have "x \<in> set (array_sort (sortFn opts) D)" using sync cur by (auto dest: in_set_takeD)
  then have "x \<in> set D" by (simp add: set_array_sort)
  then show ?thesis using True cur by simp
next
  case False
  let ?f = "sortFn opts" and ?M = "nat m"
  let ?S = "array_sort ?f D"
  let ?cur = "take ?M ?S"
  let ?nd = "array_sort ?f (?cur @ [x])"
  have asc: "ascending ?f ?S" using tp by (rule ascending_array_sort)
  have "array_sort ?f ?cur = ?cur" using tp asc by (simp add: array_sort_ascending ascending_take)
  then have nd: "?nd = insert_after ?f x ?cur" using tp by (simp add: array_sort_snoc)
  have len: "length ?nd = Suc (length ?cur)" by (simp add: length_array_sort)
  have res: "current (data (add opts (Elem x) s)) =
      fst (enforce_maxSize (Some m) ?nd (insert x (uniqueElements s)))"
    using False cur mx by (simp add: current_add_new del: add.simps)
  have xcur: "x \<notin> set ?cur" using False sync cur by simp
  show ?thesis
  proof (cases "x \<in> set D")
    case True
    then have "x \<in> set (?cur @ drop ?M ?S)" by (simp add: set_array_sort)
    then have xd: "x \<in> set (drop ?M ?S)" using xcur by (metis Un_iff set_append)
    then have "?M < length ?S" by (metis drop_all empty_iff list.set(1) not_le)
    then have lc: "length ?cur = ?M" by simp
    have "\<forall>y \<in> set ?cur. ?f y x \<le> 0" using asc xd by (blast intro: ascending_take_drop)
    then have nd2: "?nd = ?cur @ [x]" using nd tp by (simp add: insert_after_last)
    have "int (length ?nd) > m" using len lc m0 by simp
    then have "fst (enforce_maxSize (Some m) ?nd (insert x (uniqueElements s))) = butlast ?nd"
      using nd2 by (simp add: enforce_maxSize_evict del: array_sort.simps)
    then show ?thesis using res nd2 True by simp
  next
    case notD: False
    have "take ?M (array_sort ?f (D @ [x])) = take ?M (insert_after ?f x ?S)"
      using tp by (simp add: array_sort_snoc)
    also have "\<dots> = take ?M (insert_after ?f x ?cur)" by (rule take_insert_after)
    also have "\<dots> = take ?M ?nd" using nd by simp
    finally have goal: "take ?M (array_sort ?f (D @ [x])) = take ?M ?nd" .
    show ?thesis
    proof (cases "int (length ?nd) > m")
      case True
      have "length ?nd \<le> Suc ?M" using len by simp
      moreover have "length ?nd > ?M" using True m0 by linarith
      ultimately have "length ?nd = Suc ?M" by simp
      then have "butlast ?nd = take ?M ?nd" by (simp add: butlast_conv_take)
      moreover have "?nd \<noteq> []" by simp
      ultimately have "fst (enforce_maxSize (Some m) ?nd (insert x (uniqueElements s))) = take ?M ?nd"
        using True by (simp add: enforce_maxSize_evict del: array_sort.simps)
      then show ?thesis using res goal notD by simp
    next
      case False
      then have "length ?nd \<le> ?M" using m0 by linarith
      then have "take ?M ?nd = ?nd" by simp
      moreover have "fst (enforce_maxSize (Some m) ?nd (insert x (uniqueElements s))) = ?nd"
        using False by (simp add: enforce_maxSize_keep)
      ultimately show ?thesis using res goal notD by simp
    qed
  qed
qed

lemma add_all_smallest:
  assumes tp: "total_preorder (sortFn opts)"
    and mx: "maxSize opts = Some m" and m0: "0 \<le> m"
  shows "current (data (add_all opts es createSortedArraySet)) =
         take (nat m) (array_sort (sortFn opts) (distinct_added es))"
proof (induction es rule: rev_induct)
  case Nil
  show ?case by (simp add: createSortedArraySet_def new_subject_def distinct_added_def)
next
  case (snoc e es)
  let ?s = "add_all opts es createSortedArraySet"
  have sync: "uniqueElements ?s = set (current (data ?s))"
    using in_sync_add_all[OF in_sync_create, of opts es] by (simp add: in_sync_def)
  show ?case
  proof (cases e)
    case Null then show ?thesis using snoc by (simp add: add_all_snoc warn_def distinct_added_snoc_nullish)
  next
    case Undefined then show ?thesis using snoc by (simp add: add_all_snoc warn_def distinct_added_snoc_nullish)
  next
    case (Elem x)
    have "current (data (add opts (Elem x) ?s)) =
         take (nat m) (array_sort (sortFn opts)
            (if x \<in> set (distinct_added es) then distinct_added es else distinct_added es @ [x]))"
      using tp mx m0 snoc sync by (rule add_step_smallest)
    then show ?thesis using Elem by (simp add: add_all_snoc distinct_added_snoc del: add.simps)
  qed
qed

lemma total_preorder_numeric: "total_preorder numeric"
proof -
  have "(numeric x y < 0) = (0 < numeric y x)" for x y
    by (cases x; cases y) auto
  moreover have "numeric x y \<le> 0 \<or> numeric y x \<le> 0" for x y
    by (cases x; cases y) auto
  moreover have "numeric x y \<le> 0 \<Longrightarrow> numeric y z \<le> 0 \<Longrightarrow> numeric x z \<le> 0" for x y z
    by (cases x; cases y; cases z) auto
  ultimately show ?thesis unfolding total_preorder_def by blast
qed

text \<open>
  C3. Let the store be configured with \<open>maxSize = m\<close>, \<open>m\<close> not negative, and a
  comparator that is consistent (a total preorder). After every sequence \<open>es\<close> of \<open>add\<close> calls on the
  store as created, the current sequence is no longer than \<open>m\<close> and is the first \<open>m\<close>
  entries of the distinct elements added so far, sorted: it has \<open>m\<close> entries, or all
  the distinct elements added when these are fewer, each at most once, and none of its
  entries is after an added element that it leaves out.
\<close>

theorem bound_invariant:
  assumes "total_preorder (sortFn opts)" "maxSize opts = Some m" "0 \<le> m"
  shows "int (length (current (data (add_all opts es createSortedArraySet)))) \<le> m
       \<and> current (data (add_all opts es createSortedArraySet)) =
           take (nat m) (array_sort (sortFn opts) (distinct_added es))
       \<and> length (current (data (add_all opts es createSortedArraySet))) =
           min (nat m) (card (set (elems_of es)))
       \<and> set (current (data (add_all opts es createSortedArraySet))) \<subseteq> set (elems_of es)
       \<and> distinct (current (data (add_all opts es createSortedArraySet)))
       \<and> (\<forall>a \<in> set (current (data (add_all opts es createSortedArraySet))).
            \<forall>b \<in> set (elems_of es) - set (current (data (add_all opts es createSortedArraySet))).
              sortFn opts a b \<le> 0)"
proof -
  let ?S = "array_sort (sortFn opts) (distinct_added es)"
  let ?cur = "current (data (add_all opts es createSortedArraySet))"
  have cur: "?cur = take (nat m) ?S" using assms by (rule add_all_smallest)
  have asc: "ascending (sortFn opts) ?S" using assms(1) by (rule ascending_array_sort)
  have setS: "set ?S = set (elems_of es)" by (simp add: set_array_sort)
  have dS: "distinct ?S" by (simp add: distinct_array_sort)
  have lenS: "length ?S = card (set (elems_of es))"
    using distinct_card[OF dS] setS by simp
  have 1: "int (length ?cur) \<le> m" using cur assms(3) by simp
  have 3: "length ?cur = min (nat m) (card (set (elems_of es)))" using cur lenS by (simp add: min.commute)
  have 4: "set ?cur \<subseteq> set (elems_of es)" using cur setS by (metis set_take_subset)
  have 5: "distinct ?cur" using cur dS by simp
  have 6: "\<forall>a \<in> set ?cur. \<forall>b \<in> set (elems_of es) - set ?cur. sortFn opts a b \<le> 0"
  proof (intro ballI)
    fix a b assume a: "a \<in> set ?cur" and b: "b \<in> set (elems_of es) - set ?cur"
    have "b \<in> set (take (nat m) ?S @ drop (nat m) ?S)" using b setS by simp
    then have "b \<in> set (drop (nat m) ?S)" using b cur by (metis DiffD2 Un_iff set_append)
    then show "sortFn opts a b \<le> 0" using asc a cur by (metis ascending_take_drop)
  qed
  show ?thesis using 1 cur 3 4 5 6 by blast
qed

theorem bound_invariant_witness:
  "total_preorder (sortFn \<lparr>sortFn = numeric, maxSize = Some 3\<rparr>)
   \<and> maxSize \<lparr>sortFn = numeric, maxSize = Some 3\<rparr> = Some 3 \<and> (0::int) \<le> 3
   \<and> current (data (add_all \<lparr>sortFn = numeric, maxSize = Some 3\<rparr>
        [Elem (Val 3), Elem (Val 1), Elem (Val 2), Elem (Val 4)] createSortedArraySet))
      = [Val 1, Val 2, Val 3]
   \<and> int (length (current (data (add_all \<lparr>sortFn = numeric, maxSize = Some 3\<rparr>
        [Elem (Val 3), Elem (Val 1), Elem (Val 2), Elem (Val 4)] createSortedArraySet)))) \<le> 3"
proof -
  have tp: "total_preorder (sortFn \<lparr>sortFn = numeric, maxSize = Some 3\<rparr>)"
    by (simp add: total_preorder_numeric)
  have mx: "maxSize \<lparr>sortFn = numeric, maxSize = Some 3\<rparr> = Some 3" by simp
  have m0: "(0::int) \<le> 3" by simp
  have ev: "take (nat 3) (array_sort numeric (distinct_added
        [Elem (Val 3), Elem (Val 1), Elem (Val 2), Elem (Val 4)])) = [Val 1, Val 2, Val 3]"
    by (simp add: distinct_added_def)
  note b = bound_invariant [OF tp mx m0, of "[Elem (Val 3), Elem (Val 1), Elem (Val 2), Elem (Val 4)]"]
  have cur: "current (data (add_all \<lparr>sortFn = numeric, maxSize = Some 3\<rparr>
        [Elem (Val 3), Elem (Val 1), Elem (Val 2), Elem (Val 4)] createSortedArraySet))
      = [Val 1, Val 2, Val 3]"
    using b ev by simp
  show ?thesis using tp mx m0 cur b by simp
qed

section \<open>The handle\<close>

lemma clear_empties:
  "uniqueElements (clear s) = {} \<and> current (data (clear s)) = []
   \<and> snapshots (data (clear s)) = snapshots (data s) @ [[]]
   \<and> \<not> has e (clear s)"
  by (cases e) (simp_all add: clear_def subject_next_def)

text \<open>
  C1. The object returned by the factory has no property \<open>clear\<close>: a call of \<open>clear()\<close>
  through it throws a \<open>TypeError\<close> in every store state and leaves the store as it was.
  The function \<open>clear\<close> of the closure, which is not returned, does what the claim
  says (lemma \<open>clear_empties\<close>).
\<close>

theorem clear_not_exposed:
  "invoke opts CallClear s = Inl TypeError \<and> property CallClear \<notin> set handle_properties"
  by (simp add: invoke_def handle_properties_def)

section \<open>Eviction\<close>

lemma ascending_butlast: "ascending f xs \<Longrightarrow> ascending f (butlast xs)"
  by (simp add: butlast_conv_take ascending_take)

lemma ascending_last_max:
  assumes tp: "total_preorder f" and asc: "ascending f xs" and x: "x \<in> set xs"
  shows "f x (last xs) \<le> 0"
proof -
  have ne: "xs \<noteq> []" using x by auto
  then have eq: "xs = butlast xs @ [last xs]" by simp
  have "sorted_wrt (\<lambda>a b. f a b \<le> 0) (butlast xs @ [last xs])"
    using asc eq by (simp add: ascending_def)
  then have b: "\<forall>a \<in> set (butlast xs). f a (last xs) \<le> 0"
    unfolding sorted_wrt_append by simp
  have "x \<in> set (butlast xs) \<or> x = last xs" using x eq
    by (metis Un_iff empty_iff insert_iff list.set(1) list.set(2) set_append)
  moreover have "f (last xs) (last xs) \<le> 0" using tp unfolding total_preorder_def by blast
  ultimately show ?thesis using b by blast
qed

lemma add_new_fields:
  assumes "e \<notin> uniqueElements s"
  shows "current (data (add opts (Elem e) s)) =
           fst (enforce_maxSize (maxSize opts)
             (array_sort (sortFn opts) (current (data s) @ [e])) (insert e (uniqueElements s)))"
    and "snapshots (data (add opts (Elem e) s)) =
           snapshots (data s) @ [current (data (add opts (Elem e) s))]"
    and "uniqueElements (add opts (Elem e) s) =
           snd (enforce_maxSize (maxSize opts)
             (array_sort (sortFn opts) (current (data s) @ [e])) (insert e (uniqueElements s)))"
    and "console (add opts (Elem e) s) = console s"
  using assms by (simp_all add: add_new subject_next_def del: add.simps)

text \<open>
  C2. Let the comparator be consistent (a total preorder), \<open>maxSize = m\<close> be configured,
  \<open>e\<close> not in the set, and the sorted sequence with \<open>e\<close> longer than \<open>m\<close>. Then \<open>add(e)\<close>
  publishes the sorted sequence without its last entry, once, and removes that entry,
  and no other, from the set to which \<open>e\<close> was added. The entry is one of the sequence
  with \<open>e\<close>, and no entry is after it (it is a maximum). If the sequence was no longer
  than \<open>m\<close> before, what remains are the first \<open>m\<close> entries of the sorted sequence, the
  \<open>m\<close> smallest. If no entry was after \<open>e\<close>, the entry evicted is \<open>e\<close> itself and the set
  is as before.
\<close>

theorem add_evicts_last:
  assumes tp: "total_preorder (sortFn opts)"
    and mx: "maxSize opts = Some m"
    and new: "e \<notin> uniqueElements s"
    and over: "int (length (array_sort (sortFn opts) (current (data s) @ [e]))) > m"
  shows "current (data (add opts (Elem e) s)) =
           butlast (array_sort (sortFn opts) (current (data s) @ [e]))
       \<and> snapshots (data (add opts (Elem e) s)) =
           snapshots (data s) @ [butlast (array_sort (sortFn opts) (current (data s) @ [e]))]
       \<and> uniqueElements (add opts (Elem e) s) =
           insert e (uniqueElements s) - {last (array_sort (sortFn opts) (current (data s) @ [e]))}
       \<and> last (array_sort (sortFn opts) (current (data s) @ [e])) \<in> set (current (data s) @ [e])
       \<and> (\<forall>x \<in> set (current (data s) @ [e]).
             sortFn opts x (last (array_sort (sortFn opts) (current (data s) @ [e]))) \<le> 0)
       \<and> (int (length (current (data s))) \<le> m \<longrightarrow>
             current (data (add opts (Elem e) s)) =
               take (nat m) (array_sort (sortFn opts) (current (data s) @ [e])))
       \<and> ((\<forall>x \<in> set (current (data s)). sortFn opts x e \<le> 0) \<longrightarrow>
             last (array_sort (sortFn opts) (current (data s) @ [e])) = e
             \<and> uniqueElements (add opts (Elem e) s) = uniqueElements s)"
proof -
  let ?f = "sortFn opts"
  let ?nd = "array_sort ?f (current (data s) @ [e])"
  have ne: "?nd \<noteq> []" by simp
  have enf: "enforce_maxSize (maxSize opts) ?nd (insert e (uniqueElements s))
      = (butlast ?nd, insert e (uniqueElements s) - {last ?nd})"
    using mx over ne by (simp add: enforce_maxSize_evict del: array_sort.simps)
  have 1: "current (data (add opts (Elem e) s)) = butlast ?nd"
    using new enf by (simp add: add_new_fields del: add.simps)
  have 2: "snapshots (data (add opts (Elem e) s)) = snapshots (data s) @ [butlast ?nd]"
    using new 1 by (simp add: add_new_fields(2) del: add.simps)
  have 3: "uniqueElements (add opts (Elem e) s) = insert e (uniqueElements s) - {last ?nd}"
    using new enf by (simp add: add_new_fields del: add.simps)
  have "last ?nd \<in> set ?nd" using ne by (rule last_in_set)
  then have 4: "last ?nd \<in> set (current (data s) @ [e])" by (simp only: set_array_sort)
  have 5: "\<forall>x \<in> set (current (data s) @ [e]). ?f x (last ?nd) \<le> 0"
  proof
    have asc: "ascending ?f ?nd" using tp by (rule ascending_array_sort)
    fix x assume "x \<in> set (current (data s) @ [e])"
    then have "x \<in> set ?nd" by (simp only: set_array_sort)
    then show "?f x (last ?nd) \<le> 0" using tp asc by (rule ascending_last_max[rotated 2])
  qed
  have 6: "int (length (current (data s))) \<le> m \<longrightarrow>
             current (data (add opts (Elem e) s)) = take (nat m) ?nd"
  proof
    assume le: "int (length (current (data s))) \<le> m"
    have "length ?nd = Suc (length (current (data s)))" by (simp add: length_array_sort)
    then have "length ?nd - 1 = nat m" using le over by linarith
    then show "current (data (add opts (Elem e) s)) = take (nat m) ?nd"
      using 1 by (simp add: butlast_conv_take)
  qed
  have 7: "(\<forall>x \<in> set (current (data s)). ?f x e \<le> 0) \<longrightarrow>
             last ?nd = e \<and> uniqueElements (add opts (Elem e) s) = uniqueElements s"
  proof
    assume a: "\<forall>x \<in> set (current (data s)). ?f x e \<le> 0"
    have "?nd = insert_after ?f e (array_sort ?f (current (data s)))"
      using tp by (rule array_sort_snoc)
    also have "\<dots> = array_sort ?f (current (data s)) @ [e]"
      using a tp by (simp add: insert_after_last set_array_sort)
    finally have "last ?nd = e" by simp
    then show "last ?nd = e \<and> uniqueElements (add opts (Elem e) s) = uniqueElements s"
      using 3 new by simp
  qed
  show ?thesis using 1 2 3 4 5 6 7 by blast
qed

theorem add_evicts_last_witness:
  "total_preorder (sortFn \<lparr>sortFn = numeric, maxSize = Some 3\<rparr>)
   \<and> maxSize \<lparr>sortFn = numeric, maxSize = Some 3\<rparr> = Some 3
   \<and> Val 0 \<notin> uniqueElements full3
   \<and> int (length (array_sort numeric (current (data full3) @ [Val 0]))) > 3
   \<and> int (length (current (data full3))) \<le> 3
   \<and> current (data (add \<lparr>sortFn = numeric, maxSize = Some 3\<rparr> (Elem (Val 0)) full3))
        = [Val 0, Val 1, Val 2]
   \<and> current (data (add \<lparr>sortFn = numeric, maxSize = Some 3\<rparr> (Elem (Val 0)) full3))
        = take (nat 3) (array_sort numeric (current (data full3) @ [Val 0]))
   \<and> uniqueElements (add \<lparr>sortFn = numeric, maxSize = Some 3\<rparr> (Elem (Val 0)) full3)
        = {Val 0, Val 1, Val 2}
   \<and> current (data full3) = [Val 1, Val 2, Val 3]
   \<and> numeric (Val 1) (Val 4) \<le> 0 \<and> numeric (Val 2) (Val 4) \<le> 0
   \<and> numeric (Val 3) (Val 4) \<le> 0
   \<and> Val 4 \<notin> uniqueElements full3
   \<and> int (length (array_sort numeric (current (data full3) @ [Val 4]))) > 3
   \<and> uniqueElements (add \<lparr>sortFn = numeric, maxSize = Some 3\<rparr> (Elem (Val 4)) full3)
        = uniqueElements full3"
proof -
  let ?o = "\<lparr>sortFn = numeric, maxSize = Some 3\<rparr>"
  have sf: "sortFn ?o = numeric" by simp
  have tp: "total_preorder (sortFn ?o)" by (simp add: total_preorder_numeric)
  have mx: "maxSize ?o = Some 3" by simp
  have cur: "current (data full3) = [Val 1, Val 2, Val 3]" by (simp add: full3_def)
  have uq: "uniqueElements full3 = {Val 1, Val 2, Val 3}" by (simp add: full3_def)
  have n0: "Val 0 \<notin> uniqueElements full3" unfolding uq by simp
  have s0: "array_sort numeric (current (data full3) @ [Val 0]) = [Val 0, Val 1, Val 2, Val 3]"
    unfolding cur by simp
  have o0: "int (length (array_sort (sortFn ?o) (current (data full3) @ [Val 0]))) > 3"
    unfolding sf s0 by simp
  have n4: "Val 4 \<notin> uniqueElements full3" unfolding uq by simp
  have s4: "array_sort numeric (current (data full3) @ [Val 4]) = [Val 1, Val 2, Val 3, Val 4]"
    unfolding cur by simp
  have o4: "int (length (array_sort (sortFn ?o) (current (data full3) @ [Val 4]))) > 3"
    unfolding sf s4 by simp
  have le: "int (length (current (data full3))) \<le> 3" unfolding cur by simp
  have a4: "\<forall>x \<in> set (current (data full3)). numeric x (Val 4) \<le> 0" unfolding cur by simp
  note w0 = add_evicts_last [OF tp mx n0 o0]
  note w4 = add_evicts_last [OF tp mx n4 o4]
  from w0 have "current (data (add ?o (Elem (Val 0)) full3)) =
           butlast (array_sort (sortFn ?o) (current (data full3) @ [Val 0]))"
    by (elim conjE)
  then have c0: "current (data (add ?o (Elem (Val 0)) full3)) = [Val 0, Val 1, Val 2]"
    unfolding sf s0 by (simp del: add.simps)
  from w0 have "uniqueElements (add ?o (Elem (Val 0)) full3) =
           insert (Val 0) (uniqueElements full3)
             - {last (array_sort (sortFn ?o) (current (data full3) @ [Val 0]))}"
    by (elim conjE)
  moreover have "insert (Val 0) {Val 1, Val 2, Val (3::int)} - {last [Val 0, Val 1, Val 2, Val 3]}
      = {Val 0, Val 1, Val 2}"
    by auto
  ultimately have u0: "uniqueElements (add ?o (Elem (Val 0)) full3) = {Val 0, Val 1, Val 2}"
    unfolding sf s0 uq by (rule trans)
  from w0 have "int (length (current (data full3))) \<le> 3 \<longrightarrow>
      current (data (add ?o (Elem (Val 0)) full3)) =
        take (nat 3) (array_sort (sortFn ?o) (current (data full3) @ [Val 0]))"
    by (elim conjE)
  then have t0: "current (data (add ?o (Elem (Val 0)) full3)) =
        take (nat 3) (array_sort numeric (current (data full3) @ [Val 0]))"
    using le unfolding sf by (simp del: add.simps array_sort.simps)
  from w4 have "(\<forall>x \<in> set (current (data full3)). sortFn ?o x (Val 4) \<le> 0) \<longrightarrow>
             last (array_sort (sortFn ?o) (current (data full3) @ [Val 4])) = Val 4
             \<and> uniqueElements (add ?o (Elem (Val 4)) full3) = uniqueElements full3"
    by (elim conjE)
  then have u4: "uniqueElements (add ?o (Elem (Val 4)) full3) = uniqueElements full3"
    using a4 unfolding sf by (simp del: add.simps)
  show ?thesis
    by (intro conjI; (fact tp | fact mx | fact n0 | fact o0[unfolded sf] | fact n4
        | fact o4[unfolded sf] | fact le | fact cur | fact c0 | fact t0 | fact u0 | fact u4
        | simp))
qed

section \<open>The sort invariant\<close>

lemma ascending_enforce:
  "ascending f xs \<Longrightarrow> ascending f (fst (enforce_maxSize mx xs u))"
proof (cases mx)
  case None then show "ascending f xs \<Longrightarrow> ?thesis" by simp
next
  case (Some m)
  assume a: "ascending f xs"
  show ?thesis
  proof (cases "int (length xs) > m \<and> xs \<noteq> []")
    case True then show ?thesis using a Some by (simp add: enforce_maxSize_evict ascending_butlast)
  next
    case False then show ?thesis using a Some
      by (auto simp: enforce_maxSize_def array_pop_def)
  qed
qed

lemma ascending_history_add:
  assumes tp: "total_preorder (sortFn opts)" and h: "ascending_history (sortFn opts) s"
  shows "ascending_history (sortFn opts) (add opts e s)"
proof (cases e)
  case Null then show ?thesis using h by (simp add: ascending_history_def warn_def)
next
  case Undefined then show ?thesis using h by (simp add: ascending_history_def warn_def)
next
  case (Elem x)
  show ?thesis
  proof (cases "x \<in> uniqueElements s")
    case True then show ?thesis using h Elem by simp
  next
    case False
    have "ascending (sortFn opts) (current (data (add opts (Elem x) s)))"
      using False tp by (simp add: add_new_fields(1) ascending_enforce ascending_array_sort del: add.simps)
    then show ?thesis using h Elem False
      by (simp add: ascending_history_def add_new_fields(2) del: add.simps)
  qed
qed

lemma ascending_history_create: "ascending_history f createSortedArraySet"
  by (simp add: ascending_history_def createSortedArraySet_def new_subject_def ascending_def)

text \<open>
  Without consistency nothing of the kind holds: \<open>(a, b) => a > b ? 1 : 0\<close> never asks
  for an entry to move, and the sequences published for \<open>add(3)\<close>, \<open>add(1)\<close>, \<open>add(2)\<close>
  are \<open>[3]\<close>, \<open>[3, 1]\<close> and \<open>[3, 1, 2]\<close>.
\<close>

lemma after_only_not_consistent: "\<not> total_preorder after_only"
proof
  assume "total_preorder after_only"
  then have "(after_only (Val 1) (Val 3) < 0) = (0 < after_only (Val 3) (Val 1))"
    unfolding total_preorder_def by blast
  then show False by simp
qed

lemma after_only_unsorted:
  "snapshots (data (add_all \<lparr>sortFn = after_only, maxSize = None\<rparr>
      [Elem (Val 3), Elem (Val 1), Elem (Val 2)] createSortedArraySet))
   = [[], [Val 3], [Val 3, Val 1], [Val 3, Val 1, Val 2]]"
  by (simp add: add_all_def createSortedArraySet_def new_subject_def subject_next_def
      getValue_def Let_def)

text \<open>
  C4. With a comparator that is consistent (a total preorder), after every sequence of \<open>add\<close> calls on
  the store as created the current sequence is ascending, and so is every sequence
  published on the way.
\<close>

theorem sort_invariant:
  assumes "total_preorder (sortFn opts)"
  shows "ascending (sortFn opts) (current (data (add_all opts es createSortedArraySet)))
       \<and> (\<forall>snap \<in> set (snapshots (data (add_all opts es createSortedArraySet))).
            ascending (sortFn opts) snap)"
proof -
  have "ascending_history (sortFn opts) (add_all opts es createSortedArraySet)"
  proof (induction es rule: rev_induct)
    case Nil show ?case by (simp add: ascending_history_create)
  next
    case (snoc e es) then show ?case using assms by (simp add: add_all_snoc ascending_history_add)
  qed
  then show ?thesis by (simp add: ascending_history_def)
qed

lemma run3:
  "add_all \<lparr>sortFn = numeric, maxSize = None\<rparr>
      [Elem (Val 3), Elem (Val 1), Null, Elem (Val 2)] createSortedArraySet
     = \<lparr>uniqueElements = {Val 2, Val 1, Val 3},
        data = \<lparr>current = [Val 1, Val 2, Val 3],
                snapshots = [[], [Val 3], [Val 1, Val 3], [Val 1, Val 2, Val 3]]\<rparr>,
        console = [warning]\<rparr>"
  by (simp add: add_all_def createSortedArraySet_def new_subject_def subject_next_def
        getValue_def warn_def Let_def)

theorem sort_invariant_witness:
  "total_preorder (sortFn \<lparr>sortFn = numeric, maxSize = None\<rparr>)
   \<and> ascending (sortFn \<lparr>sortFn = numeric, maxSize = None\<rparr>) [Val 1, Val 2, Val 3]
   \<and> current (data (add_all \<lparr>sortFn = numeric, maxSize = None\<rparr>
        [Elem (Val 3), Elem (Val 1), Null, Elem (Val 2)] createSortedArraySet))
      = [Val 1, Val 2, Val 3]
   \<and> snapshots (data (add_all \<lparr>sortFn = numeric, maxSize = None\<rparr>
        [Elem (Val 3), Elem (Val 1), Null, Elem (Val 2)] createSortedArraySet))
      = [[], [Val 3], [Val 1, Val 3], [Val 1, Val 2, Val 3]]
   \<and> ascending (sortFn \<lparr>sortFn = numeric, maxSize = None\<rparr>) [Val 3]
   \<and> ascending (sortFn \<lparr>sortFn = numeric, maxSize = None\<rparr>) [Val 1, Val 3]"
proof -
  let ?o = "\<lparr>sortFn = numeric, maxSize = None\<rparr>"
  have tp: "total_preorder (sortFn ?o)" by (simp add: total_preorder_numeric)
  note w = sort_invariant [OF tp, of "[Elem (Val 3), Elem (Val 1), Null, Elem (Val 2)]", unfolded run3]
  have c: "current (data (add_all ?o [Elem (Val 3), Elem (Val 1), Null, Elem (Val 2)]
      createSortedArraySet)) = [Val 1, Val 2, Val 3]"
    unfolding run3 by simp
  from w have 1: "ascending (sortFn ?o) [Val 1, Val 2, Val 3]" by simp
  from w have 2: "ascending (sortFn ?o) [Val 3]" by simp
  from w have 3: "ascending (sortFn ?o) [Val 1, Val 3]" by simp
  have h: "snapshots (data (add_all ?o [Elem (Val 3), Elem (Val 1), Null, Elem (Val 2)]
      createSortedArraySet)) = [[], [Val 3], [Val 1, Val 3], [Val 1, Val 2, Val 3]]"
    unfolding run3 by simp
  show ?thesis by (intro conjI; (fact tp | fact c | fact 1 | fact 2 | fact 3 | fact h))
qed

section \<open>Adding twice\<close>

lemma insert_after_last_eq:
  assumes tp: "total_preorder f" and asc: "ascending f S"
    and l: "last (insert_after f e S) = e"
  shows "insert_after f e S = S @ [e]"
  using asc l
proof (induction S)
  case Nil show ?case by simp
next
  case (Cons y ys)
  have ne: "insert_after f e ys \<noteq> []" by (cases ys) auto
  note lt = total_preorder_less [OF tp]
  show ?case
  proof (cases "f y e \<le> 0")
    case True
    then have "last (insert_after f e ys) = e" using Cons.prems(2) ne by (simp add: lt)
    moreover have "ascending f ys" using Cons.prems(1) by (simp add: ascending_def)
    ultimately show ?thesis using Cons.IH True by (simp add: lt)
  next
    case False
    then have "last (y # ys) = e" using Cons.prems(2) by (simp add: lt)
    moreover have "f y (last (y # ys)) \<le> 0"
      using tp Cons.prems(1) by (rule ascending_last_max) simp
    ultimately show ?thesis using False by simp
  qed
qed

lemma add_twice_current:
  assumes tp: "total_preorder (sortFn opts)"
  shows "current (data (add opts e (add opts e s))) = current (data (add opts e s))"
proof (cases e)
  case Null then show ?thesis by (simp add: warn_def)
next
  case Undefined then show ?thesis by (simp add: warn_def)
next
  case (Elem x)
  let ?f = "sortFn opts"
  show ?thesis
  proof (cases "x \<in> uniqueElements (add opts (Elem x) s)")
    case True then show ?thesis using Elem by (simp only: add_present)
  next
    case out: False
    then have new: "x \<notin> uniqueElements s" by (auto simp: add_present)
    let ?nd = "array_sort ?f (current (data s) @ [x])"
    let ?S = "array_sort ?f (current (data s))"
    have ne: "?nd \<noteq> []" by simp
    have u1: "uniqueElements (add opts (Elem x) s) =
        snd (enforce_maxSize (maxSize opts) ?nd (insert x (uniqueElements s)))"
      using new by (rule add_new_fields(3))
    obtain m where mx: "maxSize opts = Some m" and over: "int (length ?nd) > m"
      using out u1 by (cases "maxSize opts") (auto simp: enforce_maxSize_def split: if_splits)
    have ev: "enforce_maxSize (maxSize opts) ?nd (insert x (uniqueElements s))
        = (butlast ?nd, insert x (uniqueElements s) - {last ?nd})"
      using mx over ne by (simp add: enforce_maxSize_evict del: array_sort.simps)
    have lx: "last ?nd = x" using out u1 ev by auto
    have c1: "current (data (add opts (Elem x) s)) = butlast ?nd"
      using new ev by (simp add: add_new_fields(1) del: add.simps)
    have ndS: "?nd = insert_after ?f x ?S" using tp by (rule array_sort_snoc)
    have ascS: "ascending ?f ?S" using tp by (rule ascending_array_sort)
    have "insert_after ?f x ?S = ?S @ [x]"
      using tp ascS lx[unfolded ndS] by (rule insert_after_last_eq)
    then have nd: "?nd = ?S @ [x]" using ndS by simp
    then have c1': "current (data (add opts (Elem x) s)) = ?S" using c1 by simp
    have asc: "ascending ?f (?S @ [x])" using tp nd ascending_array_sort[of ?f "current (data s) @ [x]"] by simp
    let ?s1 = "add opts (Elem x) s"
    have nd2: "array_sort ?f (current (data ?s1) @ [x]) = ?S @ [x]"
      unfolding c1' using tp asc by (rule array_sort_ascending)
    have over2: "int (length (?S @ [x])) > m" using over nd by simp
    have "current (data (add opts (Elem x) ?s1)) =
        fst (enforce_maxSize (maxSize opts) (array_sort ?f (current (data ?s1) @ [x]))
          (insert x (uniqueElements ?s1)))"
      using out by (rule add_new_fields(1))
    also have "\<dots> = butlast (?S @ [x])"
      unfolding nd2 using mx over2 by (simp add: enforce_maxSize_evict del: array_sort.simps add.simps)
    finally show ?thesis using c1' Elem by (simp del: add.simps)
  qed
qed

text \<open>
  C5. For every argument \<open>e\<close> and every store state: with a comparator that is
  consistent (a total preorder), \<open>add(e)\<close> called twice leaves the same current sequence as \<open>add(e)\<close> called
  once. When \<open>e\<close> is in the set, \<open>add(e)\<close> returns the store as it was: nothing changes and
  nothing is published. When \<open>e\<close> is an element not in the set, \<open>add(e)\<close> publishes once,
  the sequence that is then current.
\<close>

theorem add_idempotent:
  "(total_preorder (sortFn opts) \<longrightarrow>
      current (data (add opts e (add opts e s))) = current (data (add opts e s)))
   \<and> (\<forall>x. e = Elem x \<and> x \<in> uniqueElements s \<longrightarrow> add opts e s = s)
   \<and> (\<forall>x. e = Elem x \<and> x \<notin> uniqueElements s \<longrightarrow>
         snapshots (data (add opts e s)) =
           snapshots (data s) @ [current (data (add opts e s))])"
proof -
  have 1: "current (data (add opts e (add opts e s))) = current (data (add opts e s))"
    if "total_preorder (sortFn opts)"
    using that by (rule add_twice_current)
  have 2: "\<forall>x. e = Elem x \<and> x \<in> uniqueElements s \<longrightarrow> add opts e s = s"
    by (auto simp: add_present)
  have 3: "\<forall>x. e = Elem x \<and> x \<notin> uniqueElements s \<longrightarrow>
             snapshots (data (add opts e s)) =
               snapshots (data s) @ [current (data (add opts e s))]"
    using add_new_fields(2) by blast
  show ?thesis using 1 2 3 by blast
qed

theorem add_idempotent_witness:
  "total_preorder (sortFn \<lparr>sortFn = numeric, maxSize = Some 3\<rparr>)
   \<and> current (data (add \<lparr>sortFn = numeric, maxSize = Some 3\<rparr> (Elem (Val 4))
         (add \<lparr>sortFn = numeric, maxSize = Some 3\<rparr> (Elem (Val 4)) full3)))
       = current (data (add \<lparr>sortFn = numeric, maxSize = Some 3\<rparr> (Elem (Val 4)) full3))
   \<and> Val 1 \<in> uniqueElements full3
   \<and> add \<lparr>sortFn = numeric, maxSize = Some 3\<rparr> (Elem (Val 1)) full3 = full3
   \<and> Val 4 \<notin> uniqueElements full3
   \<and> snapshots (data (add \<lparr>sortFn = numeric, maxSize = Some 3\<rparr> (Elem (Val 4)) full3))
       = snapshots (data full3)
           @ [current (data (add \<lparr>sortFn = numeric, maxSize = Some 3\<rparr> (Elem (Val 4)) full3))]"
proof -
  let ?o = "\<lparr>sortFn = numeric, maxSize = Some 3\<rparr>"
  have tp: "total_preorder (sortFn ?o)" by (simp add: total_preorder_numeric)
  have uq: "uniqueElements full3 = {Val 1, Val 2, Val 3}" by (simp add: full3_def)
  have i1: "Val 1 \<in> uniqueElements full3" unfolding uq by simp
  have n4: "Val 4 \<notin> uniqueElements full3" unfolding uq by simp
  note w4 = add_idempotent [of ?o "Elem (Val 4)" full3]
  note w1 = add_idempotent [of ?o "Elem (Val 1)" full3]
  from w4 have "total_preorder (sortFn ?o) \<longrightarrow>
      current (data (add ?o (Elem (Val 4)) (add ?o (Elem (Val 4)) full3)))
       = current (data (add ?o (Elem (Val 4)) full3))"
    by (elim conjE)
  then have a: "current (data (add ?o (Elem (Val 4)) (add ?o (Elem (Val 4)) full3)))
       = current (data (add ?o (Elem (Val 4)) full3))"
    using tp by blast
  from w1 have "\<forall>x. Elem (Val 1) = Elem x \<and> x \<in> uniqueElements full3 \<longrightarrow>
      add ?o (Elem (Val 1)) full3 = full3"
    by (elim conjE)
  then have b: "add ?o (Elem (Val 1)) full3 = full3" using i1 by blast
  from w4 have "\<forall>x. Elem (Val 4) = Elem x \<and> x \<notin> uniqueElements full3 \<longrightarrow>
      snapshots (data (add ?o (Elem (Val 4)) full3)) =
        snapshots (data full3) @ [current (data (add ?o (Elem (Val 4)) full3))]"
    by (elim conjE)
  then have c: "snapshots (data (add ?o (Elem (Val 4)) full3)) =
        snapshots (data full3) @ [current (data (add ?o (Elem (Val 4)) full3))]"
    using n4 by blast
  show ?thesis by (intro conjI; (fact tp | fact a | fact i1 | fact b | fact n4 | fact c))
qed

section \<open>Removing\<close>

lemma remove_fields:
  "uniqueElements (remove opts e s) = set_delete e (uniqueElements s)"
  "current (data (remove opts e s)) =
     array_sort (sortFn opts) (filter (\<lambda>y. strict_neq (Elem y) e) (current (data s)))"
  "snapshots (data (remove opts e s)) = snapshots (data s) @ [current (data (remove opts e s))]"
  "console (remove opts e s) = console s"
  by (simp_all add: remove_eq subject_next_def)

lemma remove_removes:
  assumes "e \<noteq> Elem NaN"
  shows "\<not> has e (remove opts e s)
       \<and> (\<forall>x. e = Elem x \<longrightarrow> x \<notin> set (current (data (remove opts e s))))
       \<and> current (data (remove opts e s)) =
           array_sort (sortFn opts) (filter (\<lambda>y. Elem y \<noteq> e) (current (data s)))
       \<and> snapshots (data (remove opts e s)) =
           snapshots (data s) @ [current (data (remove opts e s))]"
proof -
  have f: "filter (\<lambda>y. strict_neq (Elem y) e) (current (data s))
      = filter (\<lambda>y. Elem y \<noteq> e) (current (data s))"
    using assms by (auto simp: strict_neq_def intro: filter_cong)
  have 1: "\<not> has e (remove opts e s)" by (cases e) (simp_all add: remove_fields)
  have 3: "current (data (remove opts e s)) =
           array_sort (sortFn opts) (filter (\<lambda>y. Elem y \<noteq> e) (current (data s)))"
    using f by (simp add: remove_fields)
  have 2: "\<forall>x. e = Elem x \<longrightarrow> x \<notin> set (current (data (remove opts e s)))"
    unfolding 3 by (auto simp: set_array_sort)
  show ?thesis using 1 2 3 remove_fields(3) by blast
qed

text \<open>
  C6. The code at the failing input: in a store without \<open>maxSize\<close>, whatever the
  comparator, after \<open>add(NaN)\<close> the set is \<open>{NaN}\<close> and the sequence \<open>[NaN]\<close>;
  \<open>remove(NaN)\<close> then empties the set, but the filter \<open>e !== element\<close> keeps the entry and
  the published sequence is still \<open>[NaN]\<close>. For every other argument \<open>remove\<close> does what
  the claim says (lemma \<open>remove_removes\<close>).
\<close>

theorem remove_NaN_remains:
  "uniqueElements (add \<lparr>sortFn = f, maxSize = None\<rparr> (Elem NaN) createSortedArraySet) = {NaN}
   \<and> current (data (add \<lparr>sortFn = f, maxSize = None\<rparr> (Elem NaN) createSortedArraySet)) = [NaN]
   \<and> uniqueElements (remove \<lparr>sortFn = f, maxSize = None\<rparr> (Elem NaN)
        (add \<lparr>sortFn = f, maxSize = None\<rparr> (Elem NaN) createSortedArraySet)) = {}
   \<and> current (data (remove \<lparr>sortFn = f, maxSize = None\<rparr> (Elem NaN)
        (add \<lparr>sortFn = f, maxSize = None\<rparr> (Elem NaN) createSortedArraySet))) = [NaN]"
  by (simp add: remove_fields createSortedArraySet_def new_subject_def subject_next_def
      getValue_def strict_neq_def Let_def)

text \<open>
  C9. The code at the failing input: after \<open>add(NaN)\<close>, \<open>remove(NaN)\<close> on the store as
  created the sequence has one entry and the set none; a further \<open>add(NaN)\<close> publishes
  \<open>[NaN, NaN]\<close> over the set \<open>{NaN}\<close>. In every sequence of calls without \<open>remove(NaN)\<close>
  the length of the sequence is the size of the set and both hold the same elements
  (lemma \<open>in_sync_length\<close>).
\<close>

theorem sequence_longer_than_index:
  "length (current (data (run \<lparr>sortFn = f, maxSize = None\<rparr>
       [Add (Elem NaN), Remove (Elem NaN)] createSortedArraySet))) = 1
   \<and> card (uniqueElements (run \<lparr>sortFn = f, maxSize = None\<rparr>
       [Add (Elem NaN), Remove (Elem NaN)] createSortedArraySet)) = 0
   \<and> current (data (run \<lparr>sortFn = f, maxSize = None\<rparr>
       [Add (Elem NaN), Remove (Elem NaN), Add (Elem NaN)] createSortedArraySet)) = [NaN, NaN]
   \<and> uniqueElements (run \<lparr>sortFn = f, maxSize = None\<rparr>
       [Add (Elem NaN), Remove (Elem NaN), Add (Elem NaN)] createSortedArraySet) = {NaN}"
  by (simp add: remove_fields createSortedArraySet_def new_subject_def subject_next_def
      getValue_def strict_neq_def Let_def)

lemma in_sync_length:
  assumes "Remove (Elem NaN) \<notin> set cs"
  shows "length (current (data (run opts cs createSortedArraySet)))
           = card (uniqueElements (run opts cs createSortedArraySet))
       \<and> set (current (data (run opts cs createSortedArraySet)))
           = uniqueElements (run opts cs createSortedArraySet)"
proof -
  have "in_sync (run opts cs createSortedArraySet)"
    using in_sync_create assms by (rule in_sync_run)
  then show ?thesis by (simp add: in_sync_def distinct_card)
qed

section \<open>The first n\<close>

text \<open>
  For a negative \<open>n\<close>, \<open>slice(0, n)\<close> drops the last \<open>-n\<close> entries: on the snapshot
  \<open>[1, 2, 3]\<close>, \<open>getTopN(-1)\<close> emits \<open>[1, 2]\<close>, and the first \<open>min(-1, 3)\<close> entries are none.
\<close>

theorem getTopN_negative_counterexample:
  "getTopN (- 1) 1 full3 = [[Val 1, Val 2]]
   \<and> map (\<lambda>xs. take (nat (min (- 1) (int (length xs)))) xs) (observe 1 (data full3)) = [[]]
   \<and> getTopN (- 1) 1 full3
       \<noteq> map (\<lambda>xs. take (nat (min (- 1) (int (length xs)))) xs) (observe 1 (data full3))"
  by (simp add: getTopN_def observe_def full3_def slice0_def)

text \<open>
  C8, amended. For every integer \<open>n\<close> that is not negative and every store, what a
  subscriber of \<open>getTopN(n)\<close> receives is, snapshot by snapshot, the first
  \<open>min(n, length)\<close> entries of what a subscriber of the store receives: one emission for
  each of the store's. \<open>getTopN\<close> is a function of the store that returns no store: it
  changes nothing.
\<close>

theorem getTopN_first_n:
  assumes "0 \<le> n"
  shows "getTopN n k s =
           map (\<lambda>xs. take (nat (min n (int (length xs)))) xs) (observe k (data s))
       \<and> length (getTopN n k s) = length (observe k (data s))"
  using assms by (simp add: getTopN_def slice0_def)

theorem getTopN_first_n_witness:
  "(0::int) \<le> 2
   \<and> getTopN 2 1 full3 = [[Val 1, Val 2]]
   \<and> observe 1 (data full3) = [[Val 1, Val 2, Val 3]]
   \<and> length (getTopN 2 1 full3) = 1"
proof -
  have h: "(0::int) \<le> 2" by simp
  have o: "observe 1 (data full3) = [[Val 1, Val 2, Val 3]]" by (simp add: observe_def full3_def)
  note w = getTopN_first_n [OF h, of 1 full3, unfolded o]
  from w have a: "getTopN 2 1 full3 = [[Val 1, Val 2]]" by simp
  from w have b: "length (getTopN 2 1 full3) = 1" by simp
  show ?thesis by (intro conjI; (fact h | fact a | fact o | fact b))
qed

section \<open>Published snapshots are never written\<close>

lemma h_enforce_maxSize_eq:
  assumes "r < length h"
  shows "h_enforce_maxSize mx r h u =
     (h[r := fst (enforce_maxSize mx (h ! r) u)], snd (enforce_maxSize mx (h ! r) u))"
proof (cases mx)
  case None then show ?thesis by (simp add: h_enforce_maxSize_def)
next
  case (Some m)
  show ?thesis
  proof (cases "int (length (h ! r)) > m")
    case True
    then show ?thesis using Some
      by (simp add: h_enforce_maxSize_def enforce_maxSize_def pop_in_place_def array_pop_def)
  next
    case False
    then show ?thesis using Some by (simp add: h_enforce_maxSize_def enforce_maxSize_def)
  qed
qed

lemma h_add_new:
  assumes "e \<notin> h_uniqueElements s"
  shows "h_add opts (Elem e) s =
     s\<lparr>heap := heap s @ [fst (enforce_maxSize (maxSize opts)
                   (array_sort (sortFn opts) (heap s ! current (h_data s) @ [e]))
                   (insert e (h_uniqueElements s)))],
       h_uniqueElements := snd (enforce_maxSize (maxSize opts)
                   (array_sort (sortFn opts) (heap s ! current (h_data s) @ [e]))
                   (insert e (h_uniqueElements s))),
       h_data := subject_next (length (heap s)) (h_data s)\<rparr>"
proof -
  let ?arr = "heap s ! current (h_data s) @ [e]"
  let ?h1 = "heap s @ [?arr]"
  let ?n = "length (heap s)"
  have h2: "sort_in_place (sortFn opts) ?n ?h1 = heap s @ [array_sort (sortFn opts) ?arr]"
    by (simp add: sort_in_place_def)
  have n: "?n < length (heap s @ [array_sort (sortFn opts) ?arr])" by simp
  have h3: "h_enforce_maxSize (maxSize opts) ?n (heap s @ [array_sort (sortFn opts) ?arr])
        (insert e (h_uniqueElements s))
      = (heap s @ [fst (enforce_maxSize (maxSize opts) (array_sort (sortFn opts) ?arr)
                     (insert e (h_uniqueElements s)))],
         snd (enforce_maxSize (maxSize opts) (array_sort (sortFn opts) ?arr)
                     (insert e (h_uniqueElements s))))"
    unfolding h_enforce_maxSize_eq[OF n] by simp
  show ?thesis using assms
    by (simp add: alloc_def getValue_def h2 h3 del: array_sort.simps)
qed

lemma h_add_present: "e \<in> h_uniqueElements s \<Longrightarrow> h_add opts (Elem e) s = s"
  by simp

lemma h_remove_eq:
  "h_remove opts e s =
     s\<lparr>heap := heap s @ [array_sort (sortFn opts)
                   (filter (\<lambda>y. strict_neq (Elem y) e) (heap s ! current (h_data s)))],
       h_uniqueElements := set_delete e (h_uniqueElements s),
       h_data := subject_next (length (heap s)) (h_data s)\<rparr>"
  by (simp add: h_remove_def alloc_def getValue_def sort_in_place_def)

lemma h_clear_eq:
  "h_clear s =
     s\<lparr>heap := heap s @ [[]], h_uniqueElements := {},
       h_data := subject_next (length (heap s)) (h_data s)\<rparr>"
  by (simp add: h_clear_def alloc_def)

lemma h_add_grows: "\<exists>arrs. heap (h_add opts e s) = heap s @ arrs"
proof (cases e)
  case (Elem x)
  show ?thesis
  proof (cases "x \<in> h_uniqueElements s")
    case True then show ?thesis unfolding Elem h_add_present[OF True] by simp
  next
    case False show ?thesis unfolding Elem h_add_new[OF False] by simp
  qed
qed simp_all

lemma h_step_grows: "\<exists>arrs. heap (h_step opts c s) = heap s @ arrs"
proof (cases c)
  case (Add e) then show ?thesis using h_add_grows[of opts e s] by simp
next
  case (Remove e) then show ?thesis by (simp add: h_remove_eq)
next
  case Clear then show ?thesis by (simp add: h_clear_eq)
qed

lemma h_run_grows: "\<exists>arrs. heap (h_run opts cs s) = heap s @ arrs"
proof (induction cs arbitrary: s)
  case Nil show ?case by simp
next
  case (Cons c cs)
  obtain a where a: "heap (h_step opts c s) = heap s @ a" using h_step_grows by blast
  obtain b where "heap (h_run opts cs (h_step opts c s)) = heap (h_step opts c s) @ b"
    using Cons by blast
  then show ?case using a by simp
qed

lemma h_run_frame:
  assumes "r < length (heap s)"
  shows "heap (h_run opts cs s) ! r = heap s ! r"
proof -
  obtain arrs where "heap (h_run opts cs s) = heap s @ arrs" using h_run_grows by blast
  then show ?thesis using assms by (simp add: nth_append)
qed

lemma allocated_add: "allocated s \<Longrightarrow> allocated (h_add opts e s)"
proof (cases e)
  case (Elem x)
  assume a: "allocated s"
  show ?thesis
  proof (cases "x \<in> h_uniqueElements s")
    case True show ?thesis unfolding Elem h_add_present[OF True] by (rule a)
  next
    case False show ?thesis unfolding Elem h_add_new[OF False] using a
      by (auto simp: allocated_def subject_next_def)
  qed
qed (simp_all add: allocated_def)

lemma allocated_step: "allocated s \<Longrightarrow> allocated (h_step opts c s)"
proof (cases c)
  case (Add e) then show "allocated s \<Longrightarrow> ?thesis" by (simp add: allocated_add)
next
  case (Remove e) then show "allocated s \<Longrightarrow> ?thesis"
    by (auto simp: h_remove_eq allocated_def subject_next_def)
next
  case Clear then show "allocated s \<Longrightarrow> ?thesis"
    by (auto simp: h_clear_eq allocated_def subject_next_def)
qed

lemma allocated_run: "allocated s \<Longrightarrow> allocated (h_run opts cs s)"
  by (induction cs arbitrary: s) (simp_all add: allocated_step)

lemma allocated_create: "allocated h_createSortedArraySet"
  by (simp add: allocated_def h_createSortedArraySet_def alloc_def new_subject_def)

lemma snapshots_h_step:
  "\<exists>rs. snapshots (h_data (h_step opts c s)) = snapshots (h_data s) @ rs"
proof (cases c)
  case (Add e)
  show ?thesis
  proof (cases e)
    case (Elem x)
    show ?thesis
    proof (cases "x \<in> h_uniqueElements s")
      case True then show ?thesis using Add Elem by simp
    next
      case False then show ?thesis using Add Elem
        by (simp add: h_add_new subject_next_def del: h_add.simps)
    qed
  qed (simp_all add: Add)
next
  case (Remove e) then show ?thesis by (simp add: h_remove_eq subject_next_def)
next
  case Clear then show ?thesis by (simp add: h_clear_eq subject_next_def)
qed

lemma snapshots_h_run:
  "\<exists>rs. snapshots (h_data (h_run opts cs s)) = snapshots (h_data s) @ rs"
proof (induction cs arbitrary: s)
  case Nil show ?case by simp
next
  case (Cons c cs)
  obtain a where a: "snapshots (h_data (h_step opts c s)) = snapshots (h_data s) @ a"
    using snapshots_h_step by blast
  obtain b where "snapshots (h_data (h_run opts cs (h_step opts c s)))
      = snapshots (h_data (h_step opts c s)) @ b"
    using Cons by blast
  then show ?case using a by simp
qed

lemma h_run_append: "h_run opts (cs @ ds) s = h_run opts ds (h_run opts cs s)"
  by (induction cs arbitrary: s) auto

text \<open>
  C10. Let a reference \<open>r\<close> have been published (or be the seed) after the calls \<open>cs0\<close> on
  the store as created. Then \<open>r\<close> is an array of the heap, and after any further calls
  \<open>cs\<close> of \<open>add\<close>, \<open>remove\<close> and \<open>clear\<close> the array at \<open>r\<close> has the contents it had: every
  write of \<open>sort\<close> and \<open>pop\<close> goes to an array allocated by the same call, before it is
  published.
\<close>

theorem snapshots_never_mutated:
  assumes "r \<in> set (snapshots (h_data (h_run opts cs0 h_createSortedArraySet)))"
  shows "r < length (heap (h_run opts cs0 h_createSortedArraySet))
       \<and> heap (h_run opts (cs0 @ cs) h_createSortedArraySet) ! r
           = heap (h_run opts cs0 h_createSortedArraySet) ! r
       \<and> r \<in> set (snapshots (h_data (h_run opts (cs0 @ cs) h_createSortedArraySet)))"
proof -
  let ?s = "h_run opts cs0 h_createSortedArraySet"
  have "allocated ?s" using allocated_create by (rule allocated_run)
  then have 1: "r < length (heap ?s)" using assms by (simp add: allocated_def)
  then have 2: "heap (h_run opts cs ?s) ! r = heap ?s ! r" by (rule h_run_frame)
  obtain rs where "snapshots (h_data (h_run opts cs ?s)) = snapshots (h_data ?s) @ rs"
    using snapshots_h_run by blast
  then have 3: "r \<in> set (snapshots (h_data (h_run opts cs ?s)))" using assms by simp
  show ?thesis using 1 2 3 by (simp add: h_run_append)
qed

lemma contents_h_add:
  assumes "allocated s"
  shows "contents (h_add opts e s) = add opts e (contents s)"
proof (cases e)
  case Null then show ?thesis by (simp add: contents_def warn_def)
next
  case Undefined then show ?thesis by (simp add: contents_def warn_def)
next
  case (Elem x)
  show ?thesis
  proof (cases "x \<in> h_uniqueElements s")
    case True then show ?thesis using Elem by (simp add: contents_def)
  next
    case False
    then have n: "x \<notin> uniqueElements (contents s)" by (simp add: contents_def)
    have old: "\<forall>r \<in> set (snapshots (h_data s)). (heap s @ arrs) ! r = heap s ! r" for arrs
      using assms by (simp add: allocated_def nth_append)
    show ?thesis unfolding Elem add_new[OF n] h_add_new[OF False]
      using old by (simp add: contents_def subject_next_def)
  qed
qed

lemma contents_h_step:
  assumes "allocated s"
  shows "contents (h_step opts c s) = step opts c (contents s)"
proof -
  have old: "\<forall>r \<in> set (snapshots (h_data s)). (heap s @ arrs) ! r = heap s ! r" for arrs
    using assms by (simp add: allocated_def nth_append)
  show ?thesis
  proof (cases c)
    case (Add e) then show ?thesis using assms by (simp add: contents_h_add)
  next
    case (Remove e) then show ?thesis using old
      by (simp add: h_remove_eq remove_eq contents_def subject_next_def)
  next
    case Clear then show ?thesis using old
      by (simp add: h_clear_eq clear_def contents_def subject_next_def)
  qed
qed

lemma contents_h_run:
  "allocated s \<Longrightarrow> contents (h_run opts cs s) = run opts cs (contents s)"
  by (induction cs arbitrary: s) (simp_all add: contents_h_step allocated_step)

lemma contents_create: "contents h_createSortedArraySet = createSortedArraySet"
  by (simp add: contents_def h_createSortedArraySet_def createSortedArraySet_def alloc_def
      new_subject_def)

lemma h_run_example0:
  "h_run \<lparr>sortFn = numeric, maxSize = Some 2\<rparr> [Add (Elem (Val 3)), Add (Elem (Val 1))]
      h_createSortedArraySet
   = \<lparr>heap = [[], [Val 3], [Val 1, Val 3]], h_uniqueElements = {Val 1, Val 3},
      h_data = \<lparr>current = 2, snapshots = [0, 1, 2]\<rparr>, h_console = []\<rparr>"
  by (simp add: h_createSortedArraySet_def alloc_def new_subject_def subject_next_def
      getValue_def sort_in_place_def h_enforce_maxSize_def Let_def)

lemma h_run_example1:
  "h_run \<lparr>sortFn = numeric, maxSize = Some 2\<rparr>
      [Add (Elem (Val 2)), Remove (Elem (Val 1)), Clear]
      \<lparr>heap = [[], [Val 3], [Val 1, Val 3]], h_uniqueElements = {Val 1, Val 3},
        h_data = \<lparr>current = 2, snapshots = [0, 1, 2]\<rparr>, h_console = []\<rparr>
   = \<lparr>heap = [[], [Val 3], [Val 1, Val 3], [Val 1, Val 2], [Val 2], []],
      h_uniqueElements = {},
      h_data = \<lparr>current = 5, snapshots = [0, 1, 2, 3, 4, 5]\<rparr>, h_console = []\<rparr>"
  by (simp add: h_remove_def h_clear_def alloc_def subject_next_def strict_neq_def
      getValue_def sort_in_place_def h_enforce_maxSize_def pop_in_place_def array_pop_def Let_def)

theorem snapshots_never_mutated_witness:
  "2 \<in> set (snapshots (h_data (h_run \<lparr>sortFn = numeric, maxSize = Some 2\<rparr>
       [Add (Elem (Val 3)), Add (Elem (Val 1))] h_createSortedArraySet)))
   \<and> heap (h_run \<lparr>sortFn = numeric, maxSize = Some 2\<rparr>
       [Add (Elem (Val 3)), Add (Elem (Val 1))] h_createSortedArraySet) ! 2 = [Val 1, Val 3]
   \<and> heap (h_run \<lparr>sortFn = numeric, maxSize = Some 2\<rparr>
       ([Add (Elem (Val 3)), Add (Elem (Val 1))]
          @ [Add (Elem (Val 2)), Remove (Elem (Val 1)), Clear]) h_createSortedArraySet) ! 2
       = [Val 1, Val 3]
   \<and> heap (h_run \<lparr>sortFn = numeric, maxSize = Some 2\<rparr>
       ([Add (Elem (Val 3)), Add (Elem (Val 1))]
          @ [Add (Elem (Val 2)), Remove (Elem (Val 1)), Clear]) h_createSortedArraySet)
       = [[], [Val 3], [Val 1, Val 3], [Val 1, Val 2], [Val 2], []]"
proof -
  let ?o = "\<lparr>sortFn = numeric, maxSize = Some 2\<rparr>"
  let ?before = "[Add (Elem (Val 3)), Add (Elem (Val 1))]"
  let ?after = "[Add (Elem (Val 2)), Remove (Elem (Val 1)), Clear]"
  have m: "2 \<in> set (snapshots (h_data (h_run ?o ?before h_createSortedArraySet)))"
    unfolding h_run_example0 by simp
  have v: "heap (h_run ?o ?before h_createSortedArraySet) ! 2 = [Val 1, Val 3]"
    unfolding h_run_example0 by simp
  note w = snapshots_never_mutated [OF m, of ?after]
  from w have "heap (h_run ?o (?before @ ?after) h_createSortedArraySet) ! 2
      = heap (h_run ?o ?before h_createSortedArraySet) ! 2"
    by (elim conjE)
  then have a: "heap (h_run ?o (?before @ ?after) h_createSortedArraySet) ! 2 = [Val 1, Val 3]"
    unfolding v .
  have b: "heap (h_run ?o (?before @ ?after) h_createSortedArraySet)
      = [[], [Val 3], [Val 1, Val 3], [Val 1, Val 2], [Val 2], []]"
    unfolding h_run_append h_run_example0 h_run_example1 by simp
  show ?thesis by (intro conjI; (fact m | fact v | fact a | fact b))
qed

section \<open>Adding null or undefined\<close>

text \<open>
  C7. For every store state, \<open>add\<close> with \<open>null\<close> or \<open>undefined\<close> leaves the set, the
  current sequence and the list of published snapshots as they were, so nothing is
  published; it returns a store (no failure), in which the one change is a warning
  appended to the console.
\<close>

theorem add_nullish_noop:
  "uniqueElements (add opts Null s) = uniqueElements s
   \<and> data (add opts Null s) = data s
   \<and> console (add opts Null s) = console s @ [warning]
   \<and> add opts Null s = s\<lparr>console := console s @ [warning]\<rparr>
   \<and> uniqueElements (add opts Undefined s) = uniqueElements s
   \<and> data (add opts Undefined s) = data s
   \<and> console (add opts Undefined s) = console s @ [warning]
   \<and> add opts Undefined s = s\<lparr>console := console s @ [warning]\<rparr>"
  by (simp add: warn_def)

end
